theory Spec2Isabelle
  imports Main
begin

section \<open>Values of the stored repository structure\<close>

text \<open>
  The documents read by \<^verbatim>\<open>store_repo_structure.py\<close> are decoded BSON: a value is a
  \<^verbatim>\<open>str\<close>, a \<^verbatim>\<open>list\<close>, a \<^verbatim>\<open>dict\<close> with string keys, a number, a boolean,
  \<^verbatim>\<open>None\<close>, or an object of some other class (an ObjectId, a datetime, a tuple, ...).
  \<open>collect_urls\<close> tells these apart with \<^verbatim>\<open>isinstance\<close>; the datatype has one
  constructor for each outcome of those tests. A \<^verbatim>\<open>dict\<close> is the list of its items in
  iteration order; \<open>PObj\<close> stands for any object that is neither \<^verbatim>\<open>str\<close>, \<^verbatim>\<open>list\<close>
  nor \<^verbatim>\<open>dict\<close>, its argument telling such objects apart.
\<close>

datatype pyval =
    PStr string
  | PList "pyval list"
  | PDict "(string \<times> pyval) list"
  | PNum int
  | PBool bool
  | PNone
  | PObj nat

text \<open>
  \<^verbatim>\<open>item.startswith('https://')\<close>. The prefix is ASCII, so the test on the bytes of
  a string agrees with Python's test on its code points.
\<close>

definition startswith :: "string \<Rightarrow> string \<Rightarrow> bool" where
  "startswith s p = (take (length p) s = p)"

text \<open>
  \<^verbatim>\<open>urls = set()\<close> and \<^verbatim>\<open>urls.add(item)\<close>: the set is kept as the list of its
  members, \<open>set_add\<close> adding a string only when it is not a member yet. The order in
  which Python enumerates a set is not specified; the list keeps the order of first
  insertion, and no statement below depends on that order.
\<close>

definition set_add :: "string \<Rightarrow> string list \<Rightarrow> string list" where
  "set_add x xs = (if x \<in> set xs then xs else xs @ [x])"

text \<open>
  The closure \<^verbatim>\<open>collect_urls(item)\<close> of \<^verbatim>\<open>extract_urls\<close>, lines 21 to 29. It
  mutates the enclosing \<^verbatim>\<open>urls\<close>; here the set is passed in and returned. The three
  branches are the source's \<^verbatim>\<open>if\<close> / \<^verbatim>\<open>elif\<close> / \<^verbatim>\<open>elif\<close>; a string without
  the prefix falls through all of them, as every other value does.
\<close>

fun collect_urls :: "pyval \<Rightarrow> string list \<Rightarrow> string list" where
  "collect_urls (PStr s) urls =
     (if startswith s ''https://'' then set_add s urls else urls)"
| "collect_urls (PList xs) urls = fold collect_urls xs urls"
| "collect_urls (PDict kvs) urls = fold collect_urls (map snd kvs) urls"
| "collect_urls _ urls = urls"

text \<open>\<^verbatim>\<open>extract_urls(structure)\<close>, lines 9 to 32: a fresh set, one traversal, \<^verbatim>\<open>list(urls)\<close>.\<close>

definition extract_urls :: "pyval \<Rightarrow> string list" where
  "extract_urls s = collect_urls s []"

text \<open>
  What the specification calls reachable: a value reaches itself, the elements of a
  list and the values of a mapping, and whatever those reach. Keys are not reached.
\<close>

inductive reach :: "pyval \<Rightarrow> pyval \<Rightarrow> bool" where
  reach_self: "reach v v"
| reach_elem: "x \<in> set xs \<Longrightarrow> reach x w \<Longrightarrow> reach (PList xs) w"
| reach_item: "(k, x) \<in> set kvs \<Longrightarrow> reach x w \<Longrightarrow> reach (PDict kvs) w"

text \<open>
  The nesting depth of a value: the number of values on the longest chain that starts
  at the value and goes from a list to one of its elements or from a mapping to one of
  its values. A scalar, an empty list and an empty mapping have depth 1.
\<close>

fun nesting_depth :: "pyval \<Rightarrow> nat" where
  "nesting_depth (PList xs) = Suc (fold max (map nesting_depth xs) 0)"
| "nesting_depth (PDict kvs) = Suc (fold max (map nesting_depth (map snd kvs)) 0)"
| "nesting_depth _ = 1"

section \<open>The index of repository URLs\<close>

text \<open>
  A document of the collection is a \<^verbatim>\<open>dict\<close>; \<open>get_repository_urls\<close> looks at two of
  its fields only: \<^verbatim>\<open>'repo'\<close>, the repository's name (a string, possibly absent), and
  \<^verbatim>\<open>'structure'\<close> (any value, possibly absent).
\<close>

record repo_doc =
  doc_repo :: "string option"
  doc_structure :: "pyval option"

text \<open>
  The result \<^verbatim>\<open>repository_urls\<close> is a \<^verbatim>\<open>dict\<close> from names to lists of URLs, kept
  as the list of its items. \<open>dict_set\<close> is the assignment \<^verbatim>\<open>d[k] = v\<close>: a key that
  is present keeps its place and takes the new value, a new key goes to the end.
\<close>

type_synonym url_index = "(string \<times> string list) list"

fun dict_set :: "'k \<Rightarrow> 'v \<Rightarrow> ('k \<times> 'v) list \<Rightarrow> ('k \<times> 'v) list" where
  "dict_set k v [] = [(k, v)]"
| "dict_set k v ((k', v') # kvs) =
     (if k' = k then (k', v) # kvs else (k', v') # dict_set k v kvs)"

text \<open>\<^verbatim>\<open>repo_doc.get('repo', 'Unknown')\<close>, line 59.\<close>

definition repo_name :: "repo_doc \<Rightarrow> string" where
  "repo_name repo_doc = (case doc_repo repo_doc of None \<Rightarrow> ''Unknown'' | Some n \<Rightarrow> n)"

text \<open>The body of the loop, lines 58 to 61, guarded by \<^verbatim>\<open>'structure' in repo_doc\<close>.\<close>

definition index_doc :: "repo_doc \<Rightarrow> url_index \<Rightarrow> url_index" where
  "index_doc repo_doc repository_urls =
     (case doc_structure repo_doc of
        None \<Rightarrow> repository_urls
      | Some s \<Rightarrow> dict_set (repo_name repo_doc) (extract_urls s) repository_urls)"

text \<open>
  \<^verbatim>\<open>repository_urls = {}\<close> and the loop over the documents, lines 55 to 61: what
  the specification calls \<^verbatim>\<open>buildIndex\<close>.
\<close>

definition index_docs :: "repo_doc list \<Rightarrow> url_index" where
  "index_docs repositories = fold index_doc repositories []"

text \<open>The documents that leave an entry under the name \<open>n\<close>.\<close>

definition indexed :: "string \<Rightarrow> repo_doc \<Rightarrow> bool" where
  "indexed n d \<longleftrightarrow> doc_structure d \<noteq> None \<and> repo_name d = n"

section \<open>Retrieval from the database\<close>

text \<open>
  \<open>get_repository_urls\<close> calls into the database client at six places: the constructor
  \<^verbatim>\<open>MongoClient(mongodb_uri)\<close>, the two lookups \<^verbatim>\<open>client[database]\<close> and
  \<^verbatim>\<open>db[collection]\<close>, \<^verbatim>\<open>find()\<close>, the iteration of the cursor, and
  \<^verbatim>\<open>client.close()\<close>. Each of them returns or raises; a \<open>mongo\<close> says which, with
  the message of the exception raised. The cursor yields \<open>cursor_docs\<close> and then either
  ends or raises \<open>cursor_error\<close>.
\<close>

record mongo =
  client_error :: "string option"
  getitem_error :: "string option"
  find_error :: "string option"
  cursor_docs :: "repo_doc list"
  cursor_error :: "string option"
  close_error :: "string option"

text \<open>
  The exceptions of a run: one raised by the client, with \<^verbatim>\<open>str(e)\<close>, and Python's
  \<^verbatim>\<open>UnboundLocalError\<close>, raised when a local variable is read before any assignment
  to it.
\<close>

datatype exn = DbError string | UnboundLocalError

fun exn_str :: "exn \<Rightarrow> string" where
  "exn_str (DbError m) = m"
| "exn_str UnboundLocalError = ''cannot access local variable''"

text \<open>A call of the client inside the \<^verbatim>\<open>try\<close> block: it raises, or the block goes on.\<close>

fun raising :: "string option \<Rightarrow> exn + 'a \<Rightarrow> exn + 'a" where
  "raising None continue = continue"
| "raising (Some m) continue = Inl (DbError m)"

text \<open>The \<^verbatim>\<open>try\<close> block, lines 46 to 63: \<open>Inl\<close> is the exception that leaves it.\<close>

definition try_body :: "mongo \<Rightarrow> exn + url_index" where
  "try_body db =
     raising (client_error db)
       (raising (getitem_error db)
         (raising (find_error db)
           (let repository_urls = index_docs (cursor_docs db)
            in raising (cursor_error db) (Inr repository_urls))))"

text \<open>
  \<^verbatim>\<open>get_repository_urls\<close>, lines 34 to 69, as the lines it prints and the way it ends:
  \<open>Inr\<close> the index it returns, \<open>Inl\<close> the exception it raises to its caller. The
  handler \<^verbatim>\<open>except Exception as e\<close> prints and returns \<^verbatim>\<open>{}\<close>. The
  \<^verbatim>\<open>finally\<close> clause runs last on every path and evaluates \<^verbatim>\<open>client.close()\<close>:
  when the constructor raised, \<^verbatim>\<open>client\<close> was never assigned and reading it raises
  \<^verbatim>\<open>UnboundLocalError\<close>; an exception raised in a \<^verbatim>\<open>finally\<close> clause replaces
  the pending \<^verbatim>\<open>return\<close>.
\<close>

definition get_repository_urls :: "mongo \<Rightarrow> string list \<times> (exn + url_index)" where
  "get_repository_urls db =
     (let (printed, returned) =
            (case try_body db of
               Inr repository_urls \<Rightarrow> ([], repository_urls)
             | Inl e \<Rightarrow> ([''Error retrieving repository URLs: '' @ exn_str e], []))
      in (printed,
          if client_error db \<noteq> None then Inl UnboundLocalError
          else case close_error db of
                 Some m \<Rightarrow> Inl (DbError m)
               | None \<Rightarrow> Inr returned))"

section \<open>The extractor on a store of objects\<close>

text \<open>
  Python's lists, dicts and sets are objects that are shared by reference and changed
  in place, and \<open>collect_urls\<close> works by changing one: the set \<^verbatim>\<open>urls\<close> of the
  enclosing call. To say what a call changes and what it leaves alone, the objects are
  put in a store: an object's address is its position, a list holds the addresses of
  its elements and a dict those of its values. Strings are immutable and are kept by
  value. Objects are only ever added at the end of the store. \<open>OSet\<close> is a set of
  strings, kept as the tree-level model keeps it.
\<close>

type_synonym addr = nat

datatype pyobj =
    OStr string
  | OList "addr list"
  | ODict "(string \<times> addr) list"
  | ONum int
  | OBool bool
  | ONone
  | OObj nat
  | OSet "string list"

type_synonym store = "pyobj list"

text \<open>
  Reading an address. In a run every reference is to an object of the store; an
  address outside it has no object.
\<close>

definition lookup :: "store \<Rightarrow> addr \<Rightarrow> pyobj option" where
  "lookup h a = (if a < length h then Some (h ! a) else None)"

text \<open>
  \<^verbatim>\<open>urls.add(item)\<close> on the set at address \<open>urls\<close>: the one place where the
  extractor writes to an object.
\<close>

definition urls_add :: "addr \<Rightarrow> string \<Rightarrow> store \<Rightarrow> store option" where
  "urls_add urls s h =
     (case lookup h urls of
        Some (OSet xs) \<Rightarrow> Some (h[urls := OSet (set_add s xs)])
      | _ \<Rightarrow> None)"

text \<open>
  \<^verbatim>\<open>collect_urls(item)\<close>, lines 21 to 29, on the store, with its two loops as
  \<open>for_each_st\<close>. The first argument bounds the number of activations of
  \<^verbatim>\<open>collect_urls\<close> that are open at one time: the call uses one, each recursive call
  one more. The result is the store the call leaves, and \<open>None\<close> when it does not
  return: the recursion went deeper than the bound (where CPython raises
  \<^verbatim>\<open>RecursionError\<close> at the interpreter's limit). A loop reads the addresses of the
  elements when it starts; its body writes to the set at \<open>urls\<close> only.
\<close>

fun collect_urls_st :: "nat \<Rightarrow> addr \<Rightarrow> addr \<Rightarrow> store \<Rightarrow> store option"
  and for_each_st :: "nat \<Rightarrow> addr \<Rightarrow> addr list \<Rightarrow> store \<Rightarrow> store option"
where
  "collect_urls_st 0 urls item h = None"
| "collect_urls_st (Suc n) urls item h =
     (case lookup h item of
        None \<Rightarrow> None
      | Some (OStr s) \<Rightarrow>
          (if startswith s ''https://'' then urls_add urls s h else Some h)
      | Some (OList elems) \<Rightarrow> for_each_st n urls elems h
      | Some (ODict items) \<Rightarrow> for_each_st n urls (map snd items) h
      | Some _ \<Rightarrow> Some h)"
| "for_each_st n urls [] h = Some h"
| "for_each_st n urls (subitem # rest) h =
     (case collect_urls_st n urls subitem h of
        None \<Rightarrow> None
      | Some h' \<Rightarrow> for_each_st n urls rest h')"

text \<open>
  \<^verbatim>\<open>extract_urls(structure)\<close>, lines 9 to 32, on the store: \<^verbatim>\<open>urls = set()\<close>
  makes a new object, at the first free address; the traversal fills it;
  \<^verbatim>\<open>list(urls)\<close> is returned, together with the store the call leaves.
\<close>

definition extract_urls_st :: "nat \<Rightarrow> addr \<Rightarrow> store \<Rightarrow> (string list \<times> store) option" where
  "extract_urls_st n item h =
     (let urls = length h;
          h0 = h @ [OSet []]
      in case collect_urls_st n urls item h0 of
           None \<Rightarrow> None
         | Some h1 \<Rightarrow>
             (case lookup h1 urls of
                Some (OSet xs) \<Rightarrow> Some (xs, h1)
              | _ \<Rightarrow> None))"

text \<open>
  The objects below an item: the item, the elements of a list below it and the values
  of a mapping below it. The structure below an item is finite and acyclic when all
  these objects are in the store and no chain of elements and values leads from one of
  them back to itself.
\<close>

definition children :: "store \<Rightarrow> addr \<Rightarrow> addr set" where
  "children h a =
     (case lookup h a of
        Some (OList elems) \<Rightarrow> set elems
      | Some (ODict items) \<Rightarrow> set (map snd items)
      | _ \<Rightarrow> {})"

inductive below :: "store \<Rightarrow> addr \<Rightarrow> addr \<Rightarrow> bool" for h item where
  below_self: "below h item item"
| below_child: "below h item a \<Longrightarrow> b \<in> children h a \<Longrightarrow> below h item b"

definition edges_below :: "store \<Rightarrow> addr \<Rightarrow> (addr \<times> addr) set" where
  "edges_below h item = {(a, b). below h item a \<and> b \<in> children h a}"

definition acyclic_below :: "store \<Rightarrow> addr \<Rightarrow> bool" where
  "acyclic_below h item \<longleftrightarrow>
     (\<forall>a. below h item a \<longrightarrow> a < length h) \<and> acyclic (edges_below h item)"

text \<open>
  The value that an address stands for, unfolded to at most \<open>n\<close> levels. An object
  that several lists share is unfolded once for each. A set is one more object that is
  neither \<^verbatim>\<open>str\<close>, \<^verbatim>\<open>list\<close> nor \<^verbatim>\<open>dict\<close>. The unfolding exists for some \<open>n\<close>
  exactly when the structure below the address is finite and acyclic (lemma
  \<open>acyclic_below_iff\<close>).
\<close>

fun tree_of :: "nat \<Rightarrow> store \<Rightarrow> addr \<Rightarrow> pyval option"
  and trees_of :: "nat \<Rightarrow> store \<Rightarrow> addr list \<Rightarrow> pyval list option"
where
  "tree_of 0 h a = None"
| "tree_of (Suc n) h a =
     (case lookup h a of
        None \<Rightarrow> None
      | Some (OStr s) \<Rightarrow> Some (PStr s)
      | Some (OList elems) \<Rightarrow> map_option PList (trees_of n h elems)
      | Some (ODict items) \<Rightarrow>
          map_option (\<lambda>vs. PDict (zip (map fst items) vs)) (trees_of n h (map snd items))
      | Some (ONum i) \<Rightarrow> Some (PNum i)
      | Some (OBool b) \<Rightarrow> Some (PBool b)
      | Some ONone \<Rightarrow> Some PNone
      | Some (OObj c) \<Rightarrow> Some (PObj c)
      | Some (OSet xs) \<Rightarrow> Some (PObj 0))"
| "trees_of n h [] = Some []"
| "trees_of n h (a # rest) =
     (case tree_of n h a of
        None \<Rightarrow> None
      | Some t \<Rightarrow> map_option ((#) t) (trees_of n h rest))"

section \<open>Properties of the extractor\<close>

lemma set_set_add: "set (set_add x xs) = insert x (set xs)"
  by (auto simp: set_add_def)

lemma distinct_set_add: "distinct xs \<Longrightarrow> distinct (set_add x xs)"
  by (simp add: set_add_def)

lemma reach_PStr: "reach (PStr s) w \<longleftrightarrow> w = PStr s"
  by (auto elim: reach.cases intro: reach_self)

lemma reach_PList: "reach (PList xs) w \<longleftrightarrow> w = PList xs \<or> (\<exists>x \<in> set xs. reach x w)"
  by (auto elim: reach.cases intro: reach.intros)

lemma reach_PDict:
  "reach (PDict kvs) w \<longleftrightarrow> w = PDict kvs \<or> (\<exists>x \<in> snd ` set kvs. reach x w)"
  by (force elim: reach.cases intro: reach.intros)

lemma reach_PNum: "reach (PNum i) w \<longleftrightarrow> w = PNum i"
  by (auto elim: reach.cases intro: reach_self)

lemma reach_PBool: "reach (PBool b) w \<longleftrightarrow> w = PBool b"
  by (auto elim: reach.cases intro: reach_self)

lemma reach_PNone: "reach PNone w \<longleftrightarrow> w = PNone"
  by (auto elim: reach.cases intro: reach_self)

lemma reach_PObj: "reach (PObj c) w \<longleftrightarrow> w = PObj c"
  by (auto elim: reach.cases intro: reach_self)

lemmas reach_simps =
  reach_PStr reach_PList reach_PDict reach_PNum reach_PBool reach_PNone reach_PObj

text \<open>A loop whose every step adds a known set to the accumulator adds their union.\<close>

lemma set_fold_union:
  assumes "\<And>x acc. x \<in> set xs \<Longrightarrow> set (f x acc) = set acc \<union> g x"
  shows "set (fold f xs acc) = set acc \<union> (\<Union>x \<in> set xs. g x)"
  using assms by (induction xs arbitrary: acc) auto

lemma distinct_fold:
  assumes "\<And>x acc. x \<in> set xs \<Longrightarrow> distinct acc \<Longrightarrow> distinct (f x acc)"
    and "distinct acc"
  shows "distinct (fold f xs acc)"
  using assms by (induction xs arbitrary: acc) auto

lemma set_collect_urls:
  "set (collect_urls v urls) =
     set urls \<union> {u. reach v (PStr u) \<and> startswith u ''https://''}"
proof (induction v urls rule: collect_urls.induct)
  case (1 s urls)
  show ?case by (auto simp: set_set_add reach_simps)
next
  case (2 xs urls)
  have "set (fold collect_urls xs urls) =
          set urls \<union> (\<Union>x \<in> set xs. {u. reach x (PStr u) \<and> startswith u ''https://''})"
    by (rule set_fold_union) (rule 2)
  then show ?case by (auto simp: reach_simps)
next
  case (3 kvs urls)
  have "set (fold collect_urls (map snd kvs) urls) =
          set urls \<union>
          (\<Union>x \<in> set (map snd kvs). {u. reach x (PStr u) \<and> startswith u ''https://''})"
    by (rule set_fold_union) (rule 3)
  then show ?case by (auto simp: reach_simps)
qed (simp_all add: reach_simps)

lemma distinct_collect_urls: "distinct urls \<Longrightarrow> distinct (collect_urls v urls)"
proof (induction v urls rule: collect_urls.induct)
  case (1 s urls)
  then show ?case by (simp add: distinct_set_add)
next
  case (2 xs urls)
  show ?case unfolding collect_urls.simps
    by (rule distinct_fold) (use 2 in auto)
next
  case (3 kvs urls)
  show ?case unfolding collect_urls.simps
    by (rule distinct_fold) (use 3 in auto)
qed simp_all

text \<open>
  Claim C1. For every structure, the list returned by \<open>extract_urls\<close> holds exactly
  the strings that the structure reaches through list elements and mapping values and
  that start with \<^verbatim>\<open>https://\<close>. Keys play no part: the result for a mapping is
  the result for the list of its values. Values that are not strings, and strings
  without the prefix, add nothing, since the right-hand side names prefixed strings only.
\<close>

theorem extract_urls_exact:
  "set (extract_urls s) = {u. reach s (PStr u) \<and> startswith u ''https://''}
   \<and> extract_urls (PDict kvs) = extract_urls (PList (map snd kvs))"
  by (simp add: extract_urls_def set_collect_urls)

text \<open>
  Claim C4. The list returned by \<open>extract_urls\<close> never holds a string twice; the URL
  found under the key \<^verbatim>\<open>a\<close> and again under \<^verbatim>\<open>b\<close>, \<^verbatim>\<open>c\<close> is returned once.
\<close>

theorem extract_urls_distinct:
  "distinct (extract_urls s)
   \<and> extract_urls (PDict [(''a'', PStr ''https://x.com''),
                          (''b'', PDict [(''c'', PStr ''https://x.com'')])])
       = [''https://x.com'']"
  by (simp add: extract_urls_def distinct_collect_urls startswith_def set_add_def)

text \<open>
  Claim C7. On the empty mapping, the empty list, a number, and a string that does not
  start with \<^verbatim>\<open>https://\<close> the result is empty; on a string that starts with
  \<^verbatim>\<open>https://\<close> the result is that string alone. The instances of the specification
  follow the general statement.
\<close>

theorem extract_urls_degenerate:
  "extract_urls (PDict []) = []
   \<and> extract_urls (PList []) = []
   \<and> extract_urls (PNum i) = []
   \<and> extract_urls (PStr s) = (if startswith s ''https://'' then [s] else [])
   \<and> extract_urls (PStr ''not a url'') = []
   \<and> extract_urls (PNum 42) = []
   \<and> extract_urls (PStr ''https://plain.com'') = [''https://plain.com'']"
  by (simp add: extract_urls_def startswith_def set_add_def)

text \<open>The nested example of the specification, section 8.\<close>

lemma extract_urls_nested_example:
  "extract_urls (PList [PStr ''https://a.com'',
       PList [PStr ''https://b.com'', PDict [(''k'', PStr ''https://c.com'')]]])
     = [''https://a.com'', ''https://b.com'', ''https://c.com'']"
  by (simp add: extract_urls_def startswith_def set_add_def)

section \<open>Properties of the extractor on the store\<close>

lemma lookup_Some: "lookup h a = Some x \<longleftrightarrow> a < length h \<and> h ! a = x"
  by (auto simp: lookup_def)

lemma lookup_update:
  "u < length h \<Longrightarrow> lookup (h[u := x]) a = (if a = u then Some x else lookup h a)"
  by (simp add: lookup_def)

lemma lookup_append: "lookup h a = Some x \<Longrightarrow> lookup (h @ h') a = Some x"
  by (auto simp: lookup_def nth_append)

text \<open>Writing to a set changes no unfolding: a set unfolds to the same opaque object.\<close>

lemma tree_of_update:
  "lookup h u = Some (OSet xs) \<Longrightarrow> tree_of n (h[u := OSet ys]) a = tree_of n h a"
  "lookup h u = Some (OSet xs) \<Longrightarrow> trees_of n (h[u := OSet ys]) as = trees_of n h as"
proof (induction n h a and n h as rule: tree_of_trees_of.induct)
  case (1 h a)
  show ?case by simp
next
  case (2 n h a)
  from 2(3) have u: "u < length h" by (simp add: lookup_Some)
  show ?case
  proof (cases "a = u")
    case True
    with 2(3) u show ?thesis by (simp add: lookup_update)
  next
    case False
    with 2 u show ?thesis
      by (simp add: lookup_update split: option.splits pyobj.splits)
  qed
next
  case (3 n h)
  show ?case by simp
next
  case (4 n h a rest)
  then show ?case by (simp split: option.splits)
qed

lemma length_trees_of: "trees_of n h as = Some ts \<Longrightarrow> length ts = length as"
  by (induction as arbitrary: ts) (auto split: option.splits)

text \<open>
  The traversal on the store against the traversal on values: started with the set
  \<open>xs\<close> at \<open>urls\<close>, it returns when the item unfolds within the bound, and then it
  has changed the object at \<open>urls\<close> and nothing else, to what \<open>collect_urls\<close> gives.
\<close>

lemma collect_urls_st_tree:
  "lookup h u = Some (OSet xs) \<Longrightarrow>
     collect_urls_st n u a h =
       (case tree_of n h a of
          None \<Rightarrow> None
        | Some t \<Rightarrow> Some (h[u := OSet (collect_urls t xs)]))"
  "lookup h u = Some (OSet xs) \<Longrightarrow>
     for_each_st n u as h =
       (case trees_of n h as of
          None \<Rightarrow> None
        | Some ts \<Rightarrow> Some (h[u := OSet (fold collect_urls ts xs)]))"
proof (induction n u a h and n u as h arbitrary: xs and xs rule: collect_urls_st_for_each_st.induct)
  case (1 u a h)
  show ?case by simp
next
  case (2 n u a h)
  from 2(3) have u: "u < length h" "h ! u = OSet xs" by (simp_all add: lookup_Some)
  then have same: "h[u := OSet xs] = h" by (metis list_update_id)
  show ?case
  proof (cases "lookup h a")
    case None
    then show ?thesis by simp
  next
    case (Some obj)
    show ?thesis
    proof (cases obj)
      case (OStr s)
      with Some 2(3) same show ?thesis by (simp add: urls_add_def)
    next
      case (OList elems)
      with Some 2(1) [OF Some OList 2(3)] show ?thesis
        by (simp split: option.splits)
    next
      case (ODict items)
      with Some 2(2) [OF Some ODict 2(3)] show ?thesis
        by (auto split: option.splits dest: length_trees_of)
    qed (use Some same in simp_all)
  qed
next
  case (3 n u h)
  then have "h[u := OSet xs] = h" by (metis list_update_id lookup_Some)
  then show ?case by simp
next
  case (4 n u a rest h)
  show ?case
  proof (cases "tree_of n h a")
    case None
    with 4(1) [OF 4(3)] show ?thesis by simp
  next
    case (Some t)
    let ?h' = "h[u := OSet (collect_urls t xs)]"
    from 4(3) have u: "u < length h" by (simp add: lookup_Some)
    from Some 4(1) [OF 4(3)] have step: "collect_urls_st n u a h = Some ?h'" by simp
    from u have l': "lookup ?h' u = Some (OSet (collect_urls t xs))"
      by (simp add: lookup_update)
    have "for_each_st n u rest ?h' =
        (case trees_of n ?h' rest of
           None \<Rightarrow> None
         | Some ts \<Rightarrow> Some (?h'[u := OSet (fold collect_urls ts (collect_urls t xs))]))"
      by (rule 4(2) [OF step l'])
    with step Some 4(3) show ?thesis
      by (simp add: tree_of_update split: option.splits)
  qed
qed

text \<open>Objects added to the store change no unfolding that exists.\<close>

lemma tree_of_append:
  "tree_of n h a = Some t \<Longrightarrow> tree_of n (h @ h') a = Some t"
  "trees_of n h as = Some ts \<Longrightarrow> trees_of n (h @ h') as = Some ts"
proof (induction n h a and n h as arbitrary: t and ts rule: tree_of_trees_of.induct)
  case (1 h a)
  then show ?case by simp
next
  case (2 n h a)
  from 2(3) obtain obj where obj: "lookup h a = Some obj"
    by (auto split: option.splits)
  then have obj': "lookup (h @ h') a = Some obj" by (rule lookup_append)
  show ?case
  proof (cases obj)
    case (OList elems)
    with obj obj' 2(3) 2(1) [OF obj OList] show ?thesis by auto
  next
    case (ODict items)
    with obj obj' 2(3) 2(2) [OF obj ODict] show ?thesis by auto
  qed (use obj obj' 2(3) in simp_all)
next
  case (3 n h)
  then show ?case by simp
next
  case (4 n h a rest)
  then show ?case by (auto split: option.splits)
qed

lemma extract_urls_st_tree:
  "extract_urls_st n item h =
     (case tree_of n (h @ [OSet []]) item of
        None \<Rightarrow> None
      | Some t \<Rightarrow> Some (extract_urls t, h @ [OSet (extract_urls t)]))"
proof -
  have "lookup (h @ [OSet []]) (length h) = Some (OSet [])"
    by (simp add: lookup_def)
  then show ?thesis
    by (simp add: extract_urls_st_def Let_def collect_urls_st_tree(1) extract_urls_def
        lookup_def split: option.splits)
qed

text \<open>An unfolding that exists is found with a bound \<open>m\<close> exactly when \<open>m\<close> reaches its depth.\<close>

lemma fold_max_le: "fold max xs (a::nat) \<le> m \<longleftrightarrow> a \<le> m \<and> (\<forall>x \<in> set xs. x \<le> m)"
  by (induction xs arbitrary: a) auto

lemma nesting_depth_pos: "0 < nesting_depth t"
  by (cases t) simp_all

lemma nesting_depth_PList: "nesting_depth (PList ts) \<le> Suc m \<longleftrightarrow> (\<forall>t \<in> set ts. nesting_depth t \<le> m)"
  by (simp add: fold_max_le)

lemma nesting_depth_PDict:
  "length ks = length ts \<Longrightarrow>
     nesting_depth (PDict (zip ks ts)) \<le> Suc m \<longleftrightarrow> (\<forall>t \<in> set ts. nesting_depth t \<le> m)"
  by (simp add: fold_max_le)

lemma trees_of_depth:
  assumes tree: "\<And>n a t. tree_of n h a = Some t \<Longrightarrow>
      tree_of m h a = (if nesting_depth t \<le> m then Some t else None)"
  shows "trees_of n h as = Some ts \<Longrightarrow>
      trees_of m h as = (if \<forall>t \<in> set ts. nesting_depth t \<le> m then Some ts else None)"
proof (induction as arbitrary: ts)
  case Nil
  then show ?case by simp
next
  case (Cons a rest)
  from Cons.prems obtain t ts' where t: "tree_of n h a = Some t"
    and ts': "trees_of n h rest = Some ts'" and ts: "ts = t # ts'"
    by (auto split: option.splits)
  from tree [OF t] Cons.IH [OF ts'] ts show ?case by simp
qed

lemma tree_of_depth:
  "tree_of n h a = Some t \<Longrightarrow>
     tree_of m h a = (if nesting_depth t \<le> m then Some t else None)"
proof (induction m arbitrary: n a t)
  case 0
  with nesting_depth_pos [of t] show ?case by simp
next
  case (Suc m)
  from Suc.prems obtain n' where n: "n = Suc n'" by (cases n) auto
  from Suc.prems n obtain obj where obj: "lookup h a = Some obj"
    by (auto split: option.splits)
  show ?case
  proof (cases obj)
    case (OList elems)
    with Suc.prems n obj obtain ts where ts: "trees_of n' h elems = Some ts" and t: "t = PList ts"
      by auto
    have "trees_of m h elems = (if \<forall>t \<in> set ts. nesting_depth t \<le> m then Some ts else None)"
      by (rule trees_of_depth [OF Suc.IH ts])
    with obj OList t show ?thesis by (simp add: nesting_depth_PList del: nesting_depth.simps)
  next
    case (ODict items)
    with Suc.prems n obj obtain ts where ts: "trees_of n' h (map snd items) = Some ts"
      and t: "t = PDict (zip (map fst items) ts)"
      by auto
    from ts have len: "length (map fst items) = length ts" by (simp add: length_trees_of)
    have "trees_of m h (map snd items) =
        (if \<forall>t \<in> set ts. nesting_depth t \<le> m then Some ts else None)"
      by (rule trees_of_depth [OF Suc.IH ts])
    with obj ODict t len show ?thesis
      by (simp add: nesting_depth_PDict del: nesting_depth.simps)
  qed (use Suc.prems n obj in auto)
qed

text \<open>
  The structure below an item is finite and acyclic exactly when the item has an
  unfolding; the depth of the unfoldings falls along every chain.
\<close>

lemma edges_below_iff: "(a, b) \<in> edges_below h item \<longleftrightarrow> below h item a \<and> b \<in> children h a"
  by (simp add: edges_below_def)

lemma tree_of_mono: "tree_of n h a = Some t \<Longrightarrow> n \<le> m \<Longrightarrow> tree_of m h a = Some t"
proof -
  assume t: "tree_of n h a = Some t" and le: "n \<le> m"
  from tree_of_depth [OF t, of n] t have "nesting_depth t \<le> n" by (simp split: if_splits)
  with le tree_of_depth [OF t, of m] show ?thesis by simp
qed

lemma trees_of_mono: "trees_of n h as = Some ts \<Longrightarrow> n \<le> m \<Longrightarrow> trees_of m h as = Some ts"
  by (induction as arbitrary: ts) (auto split: option.splits dest: tree_of_mono)

lemma trees_of_exist:
  "(\<And>b. b \<in> set bs \<Longrightarrow> \<exists>n t. tree_of n h b = Some t) \<Longrightarrow> \<exists>n ts. trees_of n h bs = Some ts"
proof (induction bs)
  case Nil
  show ?case by simp
next
  case (Cons b bs)
  have "\<exists>n t. tree_of n h b = Some t" by (rule Cons.prems) simp
  then obtain n t where t: "tree_of n h b = Some t" by blast
  have "\<exists>n ts. trees_of n h bs = Some ts" by (rule Cons.IH) (simp add: Cons.prems)
  then obtain n' ts where ts: "trees_of n' h bs = Some ts" by blast
  from t have "tree_of (max n n') h b = Some t" by (rule tree_of_mono) simp
  moreover from ts have "trees_of (max n n') h bs = Some ts" by (rule trees_of_mono) simp
  ultimately have "trees_of (max n n') h (b # bs) = Some (t # ts)" by simp
  then show ?case by blast
qed

lemma acyclic_below_tree_of:
  assumes "acyclic_below h item"
  shows "\<exists>n t. tree_of n h item = Some t"
proof -
  let ?E = "edges_below h item"
  from assms have inside: "\<And>a. below h item a \<Longrightarrow> a < length h" and acyc: "acyclic ?E"
    by (simp_all add: acyclic_below_def)
  have "?E \<subseteq> {..<length h} \<times> {..<length h}"
  proof
    fix e
    assume "e \<in> ?E"
    then obtain a b where e: "e = (a, b)" and a: "below h item a" and b: "b \<in> children h a"
      by (cases e) (simp add: edges_below_iff)
    from a b have "below h item b" by (rule below_child)
    with a e show "e \<in> {..<length h} \<times> {..<length h}" by (simp add: inside)
  qed
  then have "finite ?E" by (rule finite_subset) simp
  then have wf: "wf (?E\<inverse>)" using acyc by (rule finite_acyclic_wf_converse)
  have "below h item a \<longrightarrow> (\<exists>n t. tree_of n h a = Some t)" for a
  proof (induction a rule: wf_induct_rule [OF wf])
    case (1 a)
    show ?case
    proof
      assume a: "below h item a"
      then have "a < length h" by (rule inside)
      then obtain obj where obj: "lookup h a = Some obj" by (simp add: lookup_def)
      have kids: "\<exists>n t. tree_of n h b = Some t" if "b \<in> children h a" for b
      proof -
        from a that have "(b, a) \<in> ?E\<inverse>" by (simp add: edges_below_iff)
        moreover from a that have "below h item b" by (rule below_child)
        ultimately show ?thesis using 1 by blast
      qed
      show "\<exists>n t. tree_of n h a = Some t"
      proof (cases obj)
        case (OList elems)
        with obj have "children h a = set elems" by (simp add: children_def)
        with kids have "\<exists>n ts. trees_of n h elems = Some ts" by (intro trees_of_exist) simp
        then obtain n ts where "trees_of n h elems = Some ts" by blast
        with obj OList have "tree_of (Suc n) h a = Some (PList ts)" by simp
        then show ?thesis by blast
      next
        case (ODict items)
        with obj have "children h a = set (map snd items)" by (simp add: children_def)
        with kids have "\<exists>n ts. trees_of n h (map snd items) = Some ts"
          by (intro trees_of_exist) simp
        then obtain n ts where "trees_of n h (map snd items) = Some ts" by blast
        with obj ODict have "tree_of (Suc n) h a = Some (PDict (zip (map fst items) ts))" by simp
        then show ?thesis by blast
      next
        case (OStr s)
        with obj have "tree_of (Suc 0) h a = Some (PStr s)" by simp
        then show ?thesis by blast
      next
        case (ONum i)
        with obj have "tree_of (Suc 0) h a = Some (PNum i)" by simp
        then show ?thesis by blast
      next
        case (OBool b)
        with obj have "tree_of (Suc 0) h a = Some (PBool b)" by simp
        then show ?thesis by blast
      next
        case ONone
        with obj have "tree_of (Suc 0) h a = Some PNone" by simp
        then show ?thesis by blast
      next
        case (OObj c)
        with obj have "tree_of (Suc 0) h a = Some (PObj c)" by simp
        then show ?thesis by blast
      next
        case (OSet xs)
        with obj have "tree_of (Suc 0) h a = Some (PObj 0)" by simp
        then show ?thesis by blast
      qed
    qed
  qed
  then show ?thesis using below_self by blast
qed

lemma trees_of_member:
  "trees_of n h bs = Some ts \<Longrightarrow> b \<in> set bs \<Longrightarrow> \<exists>t \<in> set ts. tree_of n h b = Some t"
  by (induction bs arbitrary: ts) (auto split: option.splits)

lemma fold_max_ge: "x \<in> set xs \<Longrightarrow> (x::nat) \<le> fold max xs a"
  using fold_max_le [of xs a "fold max xs a"] by simp

lemma tree_of_child:
  assumes "tree_of n h a = Some t" and "b \<in> children h a"
  shows "\<exists>t'. tree_of n h b = Some t' \<and> nesting_depth t' < nesting_depth t"
proof -
  from assms(1) obtain n' where n: "n = Suc n'" by (cases n) auto
  from assms(1) n obtain obj where obj: "lookup h a = Some obj" by (auto split: option.splits)
  show ?thesis
  proof (cases obj)
    case (OList elems)
    with assms n obj obtain ts where ts: "trees_of n' h elems = Some ts" and t: "t = PList ts"
      and b: "b \<in> set elems"
      by (auto simp: children_def)
    from trees_of_member [OF ts b] obtain t' where t': "t' \<in> set ts" "tree_of n' h b = Some t'"
      by blast
    from t'(2) have "tree_of n h b = Some t'" by (rule tree_of_mono) (simp add: n)
    moreover from t'(1) have "nesting_depth t' \<le> fold max (map nesting_depth ts) 0"
      by (intro fold_max_ge) simp
    ultimately show ?thesis using t by auto
  next
    case (ODict items)
    with assms n obj obtain ts where ts: "trees_of n' h (map snd items) = Some ts"
      and t: "t = PDict (zip (map fst items) ts)" and b: "b \<in> set (map snd items)"
      by (auto simp: children_def)
    from ts have len: "length (map fst items) = length ts" by (simp add: length_trees_of)
    from trees_of_member [OF ts b] obtain t' where t': "t' \<in> set ts" "tree_of n' h b = Some t'"
      by blast
    from t'(2) have "tree_of n h b = Some t'" by (rule tree_of_mono) (simp add: n)
    moreover from t'(1) have "nesting_depth t' \<le> fold max (map nesting_depth ts) 0"
      by (intro fold_max_ge) simp
    ultimately show ?thesis using t len by auto
  qed (use assms obj in \<open>auto simp: children_def\<close>)
qed

lemma tree_of_below:
  assumes "tree_of n h item = Some t" and "below h item a"
  shows "\<exists>t'. tree_of n h a = Some t'"
  using assms(2,1) by (induction rule: below.induct) (auto dest: tree_of_child)

lemma tree_of_acyclic_below:
  assumes "tree_of n h item = Some t"
  shows "acyclic_below h item"
proof -
  let ?E = "edges_below h item"
  have "a < length h" if "below h item a" for a
  proof -
    from tree_of_below [OF assms that] obtain t' where "tree_of n h a = Some t'" ..
    then show ?thesis by (cases n) (auto simp: lookup_def split: if_splits)
  qed
  moreover have "acyclic ?E"
  proof (rule acyclicI_order [where f = "\<lambda>a. nesting_depth (the (tree_of n h a))"])
    fix a b
    assume "(a, b) \<in> ?E"
    then have a: "below h item a" and b: "b \<in> children h a"
      by (simp_all add: edges_below_iff)
    from tree_of_below [OF assms a] obtain ta where ta: "tree_of n h a = Some ta" ..
    from tree_of_child [OF ta b] ta
    show "nesting_depth (the (tree_of n h b)) < nesting_depth (the (tree_of n h a))" by auto
  qed
  ultimately show ?thesis by (simp add: acyclic_below_def)
qed

lemma acyclic_below_iff: "acyclic_below h item \<longleftrightarrow> (\<exists>n t. tree_of n h item = Some t)"
  by (blast intro: acyclic_below_tree_of tree_of_acyclic_below)

lemma extract_urls_st_unfolded:
  "tree_of n h item = Some t \<Longrightarrow>
     extract_urls_st m item h =
       (if nesting_depth t \<le> m then Some (extract_urls t, h @ [OSet (extract_urls t)])
        else None)"
proof -
  assume "tree_of n h item = Some t"
  then have "tree_of n (h @ [OSet []]) item = Some t" by (rule tree_of_append)
  then have "tree_of m (h @ [OSet []]) item = (if nesting_depth t \<le> m then Some t else None)"
    by (rule tree_of_depth)
  then show ?thesis by (simp add: extract_urls_st_tree)
qed







text \<open>
  Claim C8. A call of \<open>extract_urls\<close> that returns leaves every object that was in
  the store as it was, the structure it was given included: the store it leaves is the
  old one with one object added, the set it made. Nothing of the first call is seen by
  a second one: run on the same item in the store the first call left, it returns the
  same URLs.
\<close>

theorem extract_urls_st_pure:
  "extract_urls_st n item h = Some (urls, h') \<Longrightarrow>
     h' = h @ [OSet urls] \<and> extract_urls_st n item h' = Some (urls, h' @ [OSet urls])"
proof -
  assume run: "extract_urls_st n item h = Some (urls, h')"
  then obtain t where t: "tree_of n (h @ [OSet []]) item = Some t"
    and urls: "urls = extract_urls t" and h': "h' = h @ [OSet urls]"
    by (auto simp: extract_urls_st_tree split: option.splits)
  have "lookup (h @ [OSet []]) (length h) = Some (OSet [])"
    by (simp add: lookup_def)
  then have "tree_of n ((h @ [OSet []])[length h := OSet urls]) item = Some t"
    using t by (simp only: tree_of_update)
  then have "tree_of n h' item = Some t" by (simp add: h')
  then have "tree_of n (h' @ [OSet []]) item = Some t" by (rule tree_of_append)
  with urls h' show ?thesis by (simp add: extract_urls_st_tree)
qed

text \<open>The statement at a list that holds the same string object twice.\<close>

theorem extract_urls_st_pure_witness:
  "extract_urls_st (Suc (Suc 0)) 1 [OStr ''https://x.com'', OList [0, 0]]
     = Some ([''https://x.com''],
         [OStr ''https://x.com'', OList [0, 0], OSet [''https://x.com'']])
   \<and> extract_urls_st (Suc (Suc 0)) 1
       [OStr ''https://x.com'', OList [0, 0], OSet [''https://x.com'']]
     = Some ([''https://x.com''],
         [OStr ''https://x.com'', OList [0, 0], OSet [''https://x.com''],
          OSet [''https://x.com'']])"
proof -
  have run: "extract_urls_st (Suc (Suc 0)) 1 [OStr ''https://x.com'', OList [0, 0]]
     = Some ([''https://x.com''],
         [OStr ''https://x.com'', OList [0, 0], OSet [''https://x.com'']])"
    by (simp add: extract_urls_st_def lookup_def urls_add_def startswith_def set_add_def)
  from extract_urls_st_pure [OF run] run show ?thesis by simp
qed

text \<open>
  Claim C9. When the structure below an item is finite and acyclic, the item has an
  unfolding \<open>t\<close>, and the call returns as soon as \<open>nesting_depth t\<close> activations of
  \<open>collect_urls\<close> may be open at one time, and does not return with fewer: the call
  ends, and the depth of its recursion is the nesting depth of the structure. The
  traversal keeps no record of the objects it has visited, and needs none here.
\<close>

theorem extract_urls_st_depth:
  "acyclic_below h item \<Longrightarrow>
     \<exists>t. tree_of (nesting_depth t) h item = Some t
       \<and> (\<forall>m. extract_urls_st m item h =
            (if nesting_depth t \<le> m
             then Some (extract_urls t, h @ [OSet (extract_urls t)]) else None))"
proof -
  assume "acyclic_below h item"
  then obtain n t where t: "tree_of n h item = Some t"
    using acyclic_below_tree_of by blast
  from tree_of_depth [OF t, of "nesting_depth t"]
  have "tree_of (nesting_depth t) h item = Some t" by simp
  with extract_urls_st_unfolded [OF t] show ?thesis by blast
qed

text \<open>
  The statement at a number in a list in a mapping, of depth 3: three activations
  suffice, two do not.
\<close>

theorem extract_urls_st_depth_witness:
  "acyclic_below [ONum 5, OList [0], ODict [(''d'', 1)]] 2
   \<and> (\<exists>t. tree_of (nesting_depth t) [ONum 5, OList [0], ODict [(''d'', 1)]] 2 = Some t
        \<and> (\<forall>m. extract_urls_st m 2 [ONum 5, OList [0], ODict [(''d'', 1)]] =
             (if nesting_depth t \<le> m
              then Some (extract_urls t,
                [ONum 5, OList [0], ODict [(''d'', 1)]] @ [OSet (extract_urls t)])
              else None)))
   \<and> nesting_depth (PDict [(''d'', PList [PNum 5])]) = 3
   \<and> extract_urls_st 3 2 [ONum 5, OList [0], ODict [(''d'', 1)]]
     = Some ([], [ONum 5, OList [0], ODict [(''d'', 1)], OSet []])
   \<and> extract_urls_st 2 2 [ONum 5, OList [0], ODict [(''d'', 1)]] = None"
proof -
  let ?h = "[ONum 5, OList [0], ODict [(''d'', 1)]]"
  have t: "tree_of (Suc (Suc (Suc 0))) ?h 2 = Some (PDict [(''d'', PList [PNum 5])])"
    by (simp add: lookup_def)
  then have acyc: "acyclic_below ?h 2" by (rule tree_of_acyclic_below)
  from extract_urls_st_unfolded [OF t, of 3] extract_urls_st_unfolded [OF t, of 2]
  have runs: "extract_urls_st 3 2 ?h = Some ([], ?h @ [OSet []])" "extract_urls_st 2 2 ?h = None"
    by (simp_all add: extract_urls_def)
  from extract_urls_st_depth [OF acyc] acyc runs show ?thesis by simp
qed

section \<open>Properties of the index\<close>

lemma map_of_dict_set: "map_of (dict_set k v d) = (map_of d)(k \<mapsto> v)"
  by (induction d) auto

lemma keys_dict_set: "fst ` set (dict_set k v d) = insert k (fst ` set d)"
  by (simp add: dom_map_of_conv_image_fst [symmetric] map_of_dict_set)

lemma distinct_dict_set: "distinct (map fst d) \<Longrightarrow> distinct (map fst (dict_set k v d))"
  by (induction d) (auto simp: keys_dict_set)

lemma index_docs_snoc: "index_docs (ds @ [d]) = index_doc d (index_docs ds)"
  by (simp add: index_docs_def)

lemma index_docs_Nil: "index_docs [] = []"
  by (simp add: index_docs_def)

lemma map_of_index_docs:
  "map_of (index_docs docs) n =
     (if filter (indexed n) docs = [] then None
      else map_option extract_urls (doc_structure (last (filter (indexed n) docs))))"
proof (induction docs rule: rev_induct)
  case Nil
  show ?case by (simp add: index_docs_Nil)
next
  case (snoc d docs)
  show ?case
  proof (cases "doc_structure d")
    case None
    then have "\<not> indexed n d" by (simp add: indexed_def)
    with None snoc show ?thesis
      by (simp add: index_docs_snoc index_doc_def)
  next
    case (Some s)
    show ?thesis
    proof (cases "repo_name d = n")
      case True
      with Some have "indexed n d" by (simp add: indexed_def)
      with Some True show ?thesis
        by (simp add: index_docs_snoc index_doc_def map_of_dict_set)
    next
      case False
      then have "\<not> indexed n d" by (simp add: indexed_def)
      with Some False snoc show ?thesis
        by (simp add: index_docs_snoc index_doc_def map_of_dict_set)
    qed
  qed
qed

lemma distinct_index_docs: "distinct (map fst (index_docs docs))"
proof (induction docs rule: rev_induct)
  case Nil
  show ?case by (simp add: index_docs_Nil)
next
  case (snoc d docs)
  then show ?case
    by (simp add: index_docs_snoc index_doc_def distinct_dict_set split: option.splits)
qed

lemma keys_index_docs:
  "fst ` set (index_docs docs) = {repo_name d | d. d \<in> set docs \<and> doc_structure d \<noteq> None}"
proof (induction docs rule: rev_induct)
  case Nil
  show ?case by (simp add: index_docs_Nil)
next
  case (snoc d docs)
  then show ?case
    by (auto simp: index_docs_snoc index_doc_def keys_dict_set split: option.splits)
qed

lemma key_index_docs_iff:
  "n \<in> fst ` set (index_docs docs) \<longleftrightarrow>
     (\<exists>d \<in> set docs. doc_structure d \<noteq> None \<and> repo_name d = n)"
proof -
  have "n \<in> {repo_name d | d. d \<in> set docs \<and> doc_structure d \<noteq> None} \<longleftrightarrow>
      (\<exists>d \<in> set docs. doc_structure d \<noteq> None \<and> repo_name d = n)"
    by (simp add: Bex_def) metis
  then show ?thesis by (simp only: keys_index_docs)
qed

lemma index_docs_skip:
  "doc_structure d = None \<Longrightarrow> index_docs (ds1 @ d # ds2) = index_docs (ds1 @ ds2)"
  by (simp add: index_docs_def index_doc_def)

lemma index_docs_filter:
  "index_docs docs = index_docs (filter (\<lambda>d. doc_structure d \<noteq> None) docs)"
proof (induction docs rule: rev_induct)
  case Nil
  show ?case by simp
next
  case (snoc d docs)
  then show ?case
    by (cases "doc_structure d") (simp_all add: index_docs_snoc, simp add: index_doc_def)
qed


text \<open>
  Claim C5. Among the documents that carry the name \<open>n\<close> and have a
  \<^verbatim>\<open>structure\<close> field (the others have no URL list and are passed over), the one
  that comes last in the iteration decides the entry: the index maps \<open>n\<close> to the URLs
  extracted from its structure, whatever the earlier ones held, and it has one entry
  for a name. There is no entry for a name that no such document carries. For two
  documents of one name the index is the single entry of the second.
\<close>

theorem index_docs_last_wins:
  "map_of (index_docs docs) n =
     (let ds = filter (\<lambda>d. doc_structure d \<noteq> None \<and> repo_name d = n) docs
      in if ds = [] then None else map_option extract_urls (doc_structure (last ds)))
   \<and> distinct (map fst (index_docs docs))
   \<and> index_docs [\<lparr>doc_repo = r, doc_structure = Some s1\<rparr>,
                  \<lparr>doc_repo = r, doc_structure = Some s2\<rparr>]
       = [(repo_name \<lparr>doc_repo = r, doc_structure = Some s2\<rparr>, extract_urls s2)]"
proof -
  have "index_docs [\<lparr>doc_repo = r, doc_structure = Some s1\<rparr>,
                    \<lparr>doc_repo = r, doc_structure = Some s2\<rparr>]
       = [(repo_name \<lparr>doc_repo = r, doc_structure = Some s2\<rparr>, extract_urls s2)]"
    by (simp add: index_docs_def index_doc_def repo_name_def)
  with map_of_index_docs [of docs n] show ?thesis
    by (simp add: indexed_def [abs_def] distinct_index_docs Let_def)
qed

text \<open>
  Claim C6, as amended. A document without a \<^verbatim>\<open>structure\<close> field is passed over: the
  index is the one of the remaining documents, so the document adds no key, not even one
  with an empty list. Its name is a key of the index exactly when another document with
  a \<^verbatim>\<open>structure\<close> field carries the same name.
\<close>

theorem index_docs_skips:
  "doc_structure d = None \<Longrightarrow>
     index_docs (ds1 @ d # ds2) = index_docs (ds1 @ ds2)
     \<and> (repo_name d \<in> fst ` set (index_docs (ds1 @ d # ds2)) \<longleftrightarrow>
          (\<exists>d' \<in> set (ds1 @ ds2). doc_structure d' \<noteq> None \<and> repo_name d' = repo_name d))"
proof
  assume d: "doc_structure d = None"
  then show "index_docs (ds1 @ d # ds2) = index_docs (ds1 @ ds2)"
    by (rule index_docs_skip)
  have "repo_name d \<in> fst ` set (index_docs (ds1 @ ds2)) \<longleftrightarrow>
      (\<exists>d' \<in> set (ds1 @ ds2). doc_structure d' \<noteq> None \<and> repo_name d' = repo_name d)"
    by (rule key_index_docs_iff)
  with d show "repo_name d \<in> fst ` set (index_docs (ds1 @ d # ds2)) \<longleftrightarrow>
      (\<exists>d' \<in> set (ds1 @ ds2). doc_structure d' \<noteq> None \<and> repo_name d' = repo_name d)"
    by (simp only: index_docs_skip)
qed

text \<open>
  The statement at two documents: the second has no \<^verbatim>\<open>structure\<close> field and a name of
  its own, and that name is not a key.
\<close>

theorem index_docs_skips_witness:
  "doc_structure \<lparr>doc_repo = Some ''b'', doc_structure = None\<rparr> = None
   \<and> index_docs [\<lparr>doc_repo = Some ''a'', doc_structure = Some (PList [])\<rparr>,
                  \<lparr>doc_repo = Some ''b'', doc_structure = None\<rparr>]
       = [(''a'', [])]
   \<and> ''b'' \<notin> fst ` set (index_docs [\<lparr>doc_repo = Some ''a'', doc_structure = Some (PList [])\<rparr>,
                  \<lparr>doc_repo = Some ''b'', doc_structure = None\<rparr>])"
  using index_docs_skips [of "\<lparr>doc_repo = Some ''b'', doc_structure = None\<rparr>"
      "[\<lparr>doc_repo = Some ''a'', doc_structure = Some (PList [])\<rparr>]" "[]"]
  by (simp add: index_docs_def index_doc_def repo_name_def extract_urls_def)

text \<open>
  Claim C6 as it is written fails when the name is shared: the second document below
  has no \<^verbatim>\<open>structure\<close> field, and its name \<^verbatim>\<open>a\<close> is a key of the index all the
  same, put there by the first document.
\<close>

theorem index_docs_skips_counterexample:
  "doc_structure \<lparr>doc_repo = Some ''a'', doc_structure = None\<rparr> = None
   \<and> repo_name \<lparr>doc_repo = Some ''a'', doc_structure = None\<rparr>
       \<in> fst ` set (index_docs
            [\<lparr>doc_repo = Some ''a'', doc_structure = Some (PStr ''https://x.com'')\<rparr>,
             \<lparr>doc_repo = Some ''a'', doc_structure = None\<rparr>])"
  by (simp add: index_docs_def index_doc_def repo_name_def extract_urls_def
      startswith_def set_add_def)

text \<open>
  Claim C10. A document with a \<^verbatim>\<open>structure\<close> field puts its name among the keys,
  \<^verbatim>\<open>Unknown\<close> when it has no \<^verbatim>\<open>repo\<close> field; and when no later document with a
  \<^verbatim>\<open>structure\<close> field carries the same name, the index maps the name to the URLs
  extracted from that structure, which is the empty list when there are none.
\<close>

theorem index_docs_adds:
  "doc_structure d = Some s \<Longrightarrow>
     repo_name d = (case doc_repo d of None \<Rightarrow> ''Unknown'' | Some n \<Rightarrow> n)
     \<and> repo_name d \<in> fst ` set (index_docs (ds1 @ d # ds2))
     \<and> ((\<forall>d' \<in> set ds2. doc_structure d' = None \<or> repo_name d' \<noteq> repo_name d) \<longrightarrow>
          map_of (index_docs (ds1 @ d # ds2)) (repo_name d) = Some (extract_urls s))"
proof (intro conjI impI)
  assume s: "doc_structure d = Some s"
  show "repo_name d = (case doc_repo d of None \<Rightarrow> ''Unknown'' | Some n \<Rightarrow> n)"
    by (simp add: repo_name_def)
  from s show "repo_name d \<in> fst ` set (index_docs (ds1 @ d # ds2))"
    by (simp add: key_index_docs_iff)
  assume later: "\<forall>d' \<in> set ds2. doc_structure d' = None \<or> repo_name d' \<noteq> repo_name d"
  then have "filter (indexed (repo_name d)) ds2 = []"
    by (auto simp: filter_empty_conv indexed_def)
  with s have "filter (indexed (repo_name d)) (ds1 @ d # ds2) =
      filter (indexed (repo_name d)) ds1 @ [d]"
    by (simp add: indexed_def)
  then show "map_of (index_docs (ds1 @ d # ds2)) (repo_name d) = Some (extract_urls s)"
    using s by (simp add: map_of_index_docs)
qed

text \<open>
  The statement at one unnamed document whose structure holds no URL: the index maps
  \<^verbatim>\<open>Unknown\<close> to the empty list.
\<close>

theorem index_docs_adds_witness:
  "doc_structure \<lparr>doc_repo = None, doc_structure = Some (PList [PNum 1])\<rparr> = Some (PList [PNum 1])
   \<and> ''Unknown'' \<in> fst ` set (index_docs [\<lparr>doc_repo = None, doc_structure = Some (PList [PNum 1])\<rparr>])
   \<and> map_of (index_docs [\<lparr>doc_repo = None, doc_structure = Some (PList [PNum 1])\<rparr>]) ''Unknown'' = Some []"
  using index_docs_adds [of "\<lparr>doc_repo = None, doc_structure = Some (PList [PNum 1])\<rparr>"
      "PList [PNum 1]" "[]" "[]"]
  by (simp add: repo_name_def extract_urls_def)

section \<open>Properties of the retrieval\<close>

text \<open>
  Claim C3 at a constructor that raises (\<^verbatim>\<open>MongoClient\<close> parses the connection
  string and raises on a malformed one). The handler prints its message, and
  then the \<^verbatim>\<open>finally\<close> clause reads the unassigned \<^verbatim>\<open>client\<close>: the function does
  not return the empty index, it raises \<^verbatim>\<open>UnboundLocalError\<close> to \<^verbatim>\<open>main\<close>, which
  has no handler.
\<close>

theorem get_repository_urls_client_failure:
  "get_repository_urls
     \<lparr>client_error = Some ''Invalid URI scheme'', getitem_error = None, find_error = None,
      cursor_docs = [], cursor_error = None, close_error = None\<rparr>
   = ([''Error retrieving repository URLs: Invalid URI scheme''], Inl UnboundLocalError)"
  by (simp add: get_repository_urls_def try_body_def)

text \<open>
  Once the constructor has returned, every exception of the \<^verbatim>\<open>try\<close> block is caught:
  the message is printed and the empty index returned, provided \<^verbatim>\<open>close()\<close> returns.
\<close>

lemma get_repository_urls_recovers:
  "client_error db = None \<Longrightarrow> close_error db = None \<Longrightarrow> try_body db = Inl e \<Longrightarrow>
     get_repository_urls db = ([''Error retrieving repository URLs: '' @ exn_str e], Inr [])"
  by (simp add: get_repository_urls_def)

text \<open>When no call raises, the function returns the index of the documents.\<close>

lemma get_repository_urls_healthy:
  "get_repository_urls
     \<lparr>client_error = None, getitem_error = None, find_error = None,
      cursor_docs = docs, cursor_error = None, close_error = None\<rparr>
   = ([], Inr (index_docs docs))"
  by (simp add: get_repository_urls_def try_body_def)

end
